theory Spec2Isabelle
  imports Main
begin

section \<open>JavaScript values\<close>

text \<open>
  The components are JavaScript. Numbers that occur here are integer valued (timestamps
  in milliseconds, HTTP status codes, page sizes) and are modelled by \<open>int\<close>. The model
  of number-to-string conversion below is the decimal rendering JavaScript uses for
  integers of magnitude below \<open>10^21\<close>; from there on JavaScript switches to exponent
  notation, which the model does not follow. Timestamps have thirteen digits.
\<close>

definition digit_char :: "nat \<Rightarrow> char" where
  "digit_char d = ''0123456789'' ! d"

fun string_of_nat :: "nat \<Rightarrow> string" where
  "string_of_nat n =
     (if n < 10 then [digit_char n] else string_of_nat (n div 10) @ [digit_char (n mod 10)])"

declare string_of_nat.simps [simp del]

definition string_of_number :: "int \<Rightarrow> string" where
  "string_of_number i =
     (if i < 0 then CHR ''-'' # string_of_nat (nat (- i)) else string_of_nat (nat i))"

datatype jsvalue = JUndefined | JNull | JBoolean bool | JNumber int | JString string

text \<open>\<^verbatim>\<open>isNil\<close> of lodash: true for \<^verbatim>\<open>null\<close> and \<^verbatim>\<open>undefined\<close> only.\<close>

fun isNil :: "jsvalue \<Rightarrow> bool" where
  "isNil JUndefined = True"
| "isNil JNull = True"
| "isNil _ = False"

text \<open>Truthiness, as \<^verbatim>\<open>!x\<close>, \<^verbatim>\<open>if (x)\<close> and \<^verbatim>\<open>while (x)\<close> read a value.\<close>

fun truthy :: "jsvalue \<Rightarrow> bool" where
  "truthy JUndefined = False"
| "truthy JNull = False"
| "truthy (JBoolean b) = b"
| "truthy (JNumber n) = (n \<noteq> 0)"
| "truthy (JString s) = (s \<noteq> [])"

text \<open>The string a template literal \<^verbatim>\<open>`${v}`\<close> puts in place of a value.\<close>

fun template :: "jsvalue \<Rightarrow> string" where
  "template JUndefined = ''undefined''"
| "template JNull = ''null''"
| "template (JBoolean b) = (if b then ''true'' else ''false'')"
| "template (JNumber n) = string_of_number n"
| "template (JString s) = s"

section \<open>HubSpot source: new form submission\<close>

text \<open>
  A form submission as returned by the HubSpot API. The component reads two of its
  fields: the URL of the page the form was submitted on, and the submission time in
  milliseconds since the epoch. The rest of the submission, the values entered into the
  form's fields (the field \<^verbatim>\<open>values\<close>, here \<open>formValues\<close>), is passed on unread as
  part of the event.
\<close>

record result =
  pageUrl :: string
  submittedAt :: int
  formValues :: "(string \<times> string) list"

text \<open>The metadata attached to an emitted event; \<open>id_meta\<close> is the field \<^verbatim>\<open>id\<close>.\<close>

record meta =
  id_meta :: string
  summary :: string
  ts :: int

text \<open>
  \<^verbatim>\<open>generateMeta(result)\<close>. The two locale-dependent renderings of the submission date
  (\<^verbatim>\<open>toLocaleDateString\<close>, \<^verbatim>\<open>toLocaleTimeString\<close>) belong to the host and are parameters.
\<close>

definition generateMeta :: "(int \<Rightarrow> string) \<Rightarrow> (int \<Rightarrow> string) \<Rightarrow> result \<Rightarrow> meta" where
  "generateMeta toLocaleDateString toLocaleTimeString result =
     (let submitted = submittedAt result
      in \<lparr>id_meta = pageUrl result @ string_of_number (submittedAt result),
          summary = ''Form submitted at '' @ toLocaleDateString submitted @ '' ''
                      @ toLocaleTimeString submitted,
          ts = submittedAt result\<rparr>)"

text \<open>
  \<^verbatim>\<open>isRelevant(result, submittedAfter) { return result.submittedAt > submittedAfter; }\<close>
\<close>

definition isRelevant :: "result \<Rightarrow> int \<Rightarrow> bool" where
  "isRelevant result submittedAfter = (submittedAt result > submittedAfter)"

text \<open>The request parameters of one form's listing; \<^verbatim>\<open>getParams()\<close> sets the page size.\<close>

record params =
  limit :: nat
  formId :: "string option"

definition getParams :: params where
  "getParams = \<lparr>limit = 50, formId = None\<rparr>"

text \<open>
  \<^verbatim>\<open>processResults(after, baseParams)\<close> starts one \<^verbatim>\<open>this.paginate\<close> call per configured
  form, each with the base parameters extended by the form's id, and awaits them all
  with \<^verbatim>\<open>Promise.all\<close>; it returns no value. The model takes \<^verbatim>\<open>this.paginate\<close>,
  \<^verbatim>\<open>this.forms\<close> and \<^verbatim>\<open>this.hubspot.getFormSubmissions\<close> as arguments and returns what
  each call did, in the order of \<^verbatim>\<open>this.forms\<close>. The order in which the concurrent
  calls reach the sink relative to one another is not part of the model.
\<close>

definition processResults ::
  "(params \<Rightarrow> (params \<Rightarrow> 'p) \<Rightarrow> string \<Rightarrow> 'c \<Rightarrow> 'e) \<Rightarrow> string list \<Rightarrow> (params \<Rightarrow> 'p)
     \<Rightarrow> 'c \<Rightarrow> params \<Rightarrow> 'e list" where
  "processResults paginate' forms getFormSubmissions after baseParams =
     map (\<lambda>params. paginate' params getFormSubmissions ''results'' after)
       (map (\<lambda>form. baseParams\<lparr>formId := Some form\<rparr>) forms)"

section \<open>The incremental poller\<close>

text \<open>
  \<^verbatim>\<open>paginate\<close> and the \<^verbatim>\<open>run\<close> method that calls \<^verbatim>\<open>processResults\<close> live in the
  component's \<^verbatim>\<open>common.mjs\<close>, which is not among the source files at hand. They are
  modelled from the specification's algorithm for the poller (section 4.1). The source
  of one sub-resource is the sequence of pages it returns, in fetch order; a page has a
  continuation token exactly when another page follows it in the sequence. The page
  size travels in the request parameters and is the source's to honour. A cycle starts
  from a cursor: \<open>processResults\<close> receives it as \<^verbatim>\<open>after\<close> and \<open>isRelevant\<close> compares
  against it; the first run without a cursor (step 1, a bounded backfill) is not
  modelled.
\<close>

text \<open>
  Modelled from the spec: helpers of the missing \<^verbatim>\<open>common.mjs\<close>, the ordering key of the
  oldest and of the newest of a sequence of items, none for an empty sequence.
\<close>

definition oldestKey :: "int list \<Rightarrow> int option" where
  "oldestKey ks = (case ks of [] \<Rightarrow> None | k # ks' \<Rightarrow> Some (fold min ks' k))"

definition newestKey :: "int list \<Rightarrow> int option" where
  "newestKey ks = (case ks of [] \<Rightarrow> None | k # ks' \<Rightarrow> Some (fold max ks' k))"

text \<open>
  Modelled from the spec: the page-fetch loop of \<^verbatim>\<open>paginate\<close> (missing \<^verbatim>\<open>common.mjs\<close>),
  step 2: ``repeatedly fetch pages, continuing while the returned page contains items
  newer than cursor and a continuation token exists; stop fetching once a page's oldest
  item is not newer than cursor or the continuation token is exhausted''. The result is
  the sequence of all items fetched.
\<close>

fun fetchPages :: "int \<Rightarrow> result list list \<Rightarrow> result list" where
  "fetchPages cursor [] = []"
| "fetchPages cursor (page # rest) =
     (let continue = (list_ex (\<lambda>r. isRelevant r cursor) page \<and> rest \<noteq> []);
          stop = ((case oldestKey (map submittedAt page) of
                     None \<Rightarrow> False
                   | Some k \<Rightarrow> \<not> k > cursor) \<or> rest = [])
      in if continue \<and> \<not> stop then page @ fetchPages cursor rest else page)"

text \<open>
  Modelled from the spec: \<^verbatim>\<open>paginate\<close> (missing \<^verbatim>\<open>common.mjs\<close>), steps 3 and 4: ``filter
  to items strictly newer than cursor using the ordering key'' (the component's
  \<open>isRelevant\<close> hook), then ``reverse to chronological order''. The result is the sequence
  of emissions of one sub-resource, in the order they are handed to the sink. The
  argument \<open>resultType\<close> names the field of the response that holds the items.
\<close>

definition paginate ::
  "params \<Rightarrow> (params \<Rightarrow> result list list) \<Rightarrow> string \<Rightarrow> int \<Rightarrow> result list" where
  "paginate params resourceFn resultType after =
     rev (filter (\<lambda>r. isRelevant r after) (fetchPages after (resourceFn params)))"

text \<open>
  Modelled from the spec: the cursor update of the missing \<^verbatim>\<open>common.mjs\<close>, step 6:
  ``newCursor = the ordering key of the newest item observed across all sub-resources
  this cycle; if no items observed, newCursor = unchanged'', with the items counted as
  the design notes (section 9) settle it: ``cursor = max ordering key among emitted
  items only''.
\<close>

definition newCursor :: "int \<Rightarrow> result list \<Rightarrow> int" where
  "newCursor cursor emitted =
     (case newestKey (map submittedAt emitted) of None \<Rightarrow> cursor | Some k \<Rightarrow> k)"

text \<open>
  Modelled from the spec: one poll cycle (\<^verbatim>\<open>run\<close> of the missing \<^verbatim>\<open>common.mjs\<close>), the
  contract \<^verbatim>\<open>poll(source, cursor) -> (emissions, newCursor)\<close>: the emissions of every
  form, as \<open>processResults\<close> produces them, and the cursor to persist.
\<close>

definition poll ::
  "string list \<Rightarrow> (params \<Rightarrow> result list list) \<Rightarrow> int \<Rightarrow> result list list \<times> int" where
  "poll forms getFormSubmissions cursor =
     (let emitted = processResults paginate forms getFormSubmissions cursor getParams
      in (emitted, newCursor cursor (concat emitted)))"

text \<open>
  Modelled from the spec: the first run of a sub-resource (missing \<^verbatim>\<open>common.mjs\<close>),
  step 1: ``if cursor absent, perform a bounded backfill fetch (page size configurable)
  instead of full history''. One page is fetched; with no cursor to compare against,
  all of its items are new, and they are emitted oldest first (step 4).
\<close>

definition backfill :: "params \<Rightarrow> (params \<Rightarrow> result list list) \<Rightarrow> string \<Rightarrow> result list" where
  "backfill params resourceFn resultType =
     rev (case resourceFn params of [] \<Rightarrow> [] | page # rest \<Rightarrow> page)"

text \<open>
  Modelled from the spec: the emissions of any poll cycle (\<^verbatim>\<open>run\<close> of the missing
  \<^verbatim>\<open>common.mjs\<close>), with or without a cursor, and with sub-resources whose fetch fails
  (retries used up, or an error that is not retried): the source of a form gives its
  pages, or \<open>None\<close> when fetching fails. A failed sub-resource emits nothing (``zero
  emissions''), while ``successfully fetched sub-resources still emit'' (section 7).
  The result lists the emissions form by form, as \<open>processResults\<close> starts the calls.
\<close>

definition cycleEmissions ::
  "string list \<Rightarrow> (params \<Rightarrow> result list list option) \<Rightarrow> int option \<Rightarrow> result list list" where
  "cycleEmissions forms getFormSubmissions cursor =
     processResults
       (\<lambda>params resourceFn resultType after.
          case resourceFn params of
            None \<Rightarrow> []
          | Some pages \<Rightarrow>
              (case after of
                 None \<Rightarrow> backfill params (\<lambda>p. pages) resultType
               | Some c \<Rightarrow> paginate params (\<lambda>p. pages) resultType c))
       forms getFormSubmissions cursor getParams"

text \<open>All items a cycle fetches, over all forms.\<close>

definition observed :: "string list \<Rightarrow> (params \<Rightarrow> result list list) \<Rightarrow> int \<Rightarrow> result list" where
  "observed forms getFormSubmissions cursor =
     concat (map (\<lambda>form. fetchPages cursor
                            (getFormSubmissions (getParams\<lparr>formId := Some form\<rparr>))) forms)"

text \<open>A source lists its items newest first: keys never increase along the sequence.\<close>

definition newestFirst :: "result list \<Rightarrow> bool" where
  "newestFirst items = sorted_wrt (\<lambda>a b. submittedAt a \<ge> submittedAt b) items"

text \<open>A submission with ordering key \<open>k\<close>, for the scenarios of the specification.\<close>

definition item :: "int \<Rightarrow> result" where
  "item k = \<lparr>pageUrl = ''https://example.com/contact'', submittedAt = k, formValues = []\<rparr>"

section \<open>Reddit app: query strings\<close>

text \<open>
  A parameter object: its own properties with their values, in the order
  \<^verbatim>\<open>Object.keys\<close> lists them. An absent object (\<^verbatim>\<open>undefined\<close>, \<^verbatim>\<open>null\<close>) is \<open>None\<close>.
\<close>

type_synonym object = "(string \<times> jsvalue) list"

definition keys :: "object \<Rightarrow> string list" where
  "keys params = map fst params"

text \<open>Property access \<^verbatim>\<open>params[k]\<close>; a property the object lacks reads \<^verbatim>\<open>undefined\<close>.\<close>

definition member_of :: "object \<Rightarrow> string \<Rightarrow> jsvalue" where
  "member_of params k = (case map_of params k of None \<Rightarrow> JUndefined | Some v \<Rightarrow> v)"

text \<open>\<^verbatim>\<open>s.substr(0, len)\<close>: the first \<open>len\<close> characters, none when \<open>len\<close> is not positive.\<close>

definition substr0 :: "string \<Rightarrow> int \<Rightarrow> string" where
  "substr0 s len = take (nat len) s"

text \<open>
  \<^verbatim>\<open>_getQuery(params)\<close>: the loop over the keys appends \<^verbatim>\<open>`${key}=${value}&`\<close> for every
  value that is not nil; the last character of the result is then cut off.
\<close>

definition getQuery :: "object option \<Rightarrow> string" where
  "getQuery params =
     (case params of
        None \<Rightarrow> ''''
      | Some params \<Rightarrow>
          (let query = fold (\<lambda>k query.
                               if \<not> isNil (member_of params k)
                               then query @ k @ ''='' @ template (member_of params k) @ ''&''
                               else query)
                         (keys params) ''?''
           in substr0 query (int (length query) - 1)))"

text \<open>
  The query string as the claim describes it: one entry \<open>k=v\<close> per key whose value is
  not nil, the entries joined by \<open>&\<close> after a leading \<open>?\<close>.
\<close>

definition spec_entries :: "object \<Rightarrow> string list" where
  "spec_entries params =
     map (\<lambda>(k, v). k @ ''='' @ template v) (filter (\<lambda>(k, v). \<not> isNil v) params)"

fun spec_joined :: "string list \<Rightarrow> string" where
  "spec_joined [] = ''''"
| "spec_joined [e] = e"
| "spec_joined (e # es) = e @ ''&'' @ spec_joined es"

definition spec_queryString :: "object \<Rightarrow> string" where
  "spec_queryString params =
     (if spec_entries params = [] then '''' else ''?'' @ spec_joined (spec_entries params))"

section \<open>Reddit app: retries\<close>

text \<open>
  A failed request, as far as the retry wrapper reads it: \<open>status\<close> is
  \<^verbatim>\<open>get(err, ["response", "status"])\<close>, absent when the error carries no response.
\<close>

record http_error =
  status :: "int option"
  message :: string

text \<open>\<^verbatim>\<open>[...].includes(v)\<close> on an array of numbers; \<^verbatim>\<open>undefined\<close> is in none.\<close>

definition array_includes :: "int list \<Rightarrow> int option \<Rightarrow> bool" where
  "array_includes xs v = (case v of None \<Rightarrow> False | Some n \<Rightarrow> List.member xs n)"

text \<open>
  An expression statement: the expression is evaluated, its value is dropped, and
  control passes to what follows.
\<close>

definition expression_statement :: "'a \<Rightarrow> 'b \<Rightarrow> 'b" where
  "expression_statement e rest = rest"

text \<open>
  \<^verbatim>\<open>_isRetriableStatusCode(statusCode) {[408, 429, 500].includes(statusCode);}\<close>
  The body is one expression statement and has no \<^verbatim>\<open>return\<close>, so the call evaluates
  to \<^verbatim>\<open>undefined\<close>.
\<close>

definition isRetriableStatusCode :: "int option \<Rightarrow> jsvalue" where
  "isRetriableStatusCode statusCode =
     expression_statement (array_includes [408, 429, 500] statusCode) JUndefined"

record retryOpts =
  retries :: nat
  factor :: nat

text \<open>
  How the promise of \<^verbatim>\<open>_withRetries\<close> is rejected: with the message given to \<^verbatim>\<open>bail\<close>
  (it quotes the status code), or, once the retries are used up, with one of the errors
  the attempts threw.
\<close>

datatype rejection = Unexpected "int option" | Exhausted "http_error list"

datatype 'a promise = Resolved 'a | Rejected rejection

text \<open>
  What one run of the function handed to \<^verbatim>\<open>retry\<close> does: whether it called \<^verbatim>\<open>bail\<close>
  (and with what), and how it settled (a value returned or an error thrown).
\<close>

record 'a attempt =
  bailed :: "rejection option"
  settled :: "http_error + 'a"

text \<open>
  What a call of \<^verbatim>\<open>_withRetries\<close> comes to: how its promise settles, the number of
  calls of \<^verbatim>\<open>apiCall\<close> made up to the moment it settles (\<open>calls\<close>), and the number of
  calls made in all (\<open>invocations\<close>).
\<close>

record 'a retried =
  outcome :: "'a promise"
  calls :: nat
  invocations :: nat

text \<open>
  A promise settles once: the first resolution or rejection stands, later ones leave
  it as it is. The state is the settlement so far, with the number of calls made then.
\<close>

definition settle :: "('a promise \<times> nat) option \<Rightarrow> 'a promise \<Rightarrow> nat \<Rightarrow> ('a promise \<times> nat) option" where
  "settle first p num = (case first of None \<Rightarrow> Some (p, num) | Some s \<Rightarrow> Some s)"

definition finished :: "('a promise \<times> nat) option \<Rightarrow> 'a promise \<Rightarrow> nat \<Rightarrow> 'a retried" where
  "finished first p num =
     (case first of
        None \<Rightarrow> \<lparr>outcome = p, calls = num, invocations = num\<rparr>
      | Some (p', c) \<Rightarrow> \<lparr>outcome = p', calls = c, invocations = num\<rparr>)"

text \<open>
  The \<^verbatim>\<open>async-retry\<close> package is a dependency outside the repository; this is its
  retry loop. \<^verbatim>\<open>bail(e)\<close> rejects the promise with \<open>e\<close> and does nothing else: it does
  not stop the loop. A returned value resolves the promise and ends the loop. A thrown
  error, whether or not \<^verbatim>\<open>bail\<close> was called before it, leads to another attempt while
  retries are left (\<open>left\<close>), and otherwise rejects the promise with one of the errors
  thrown and ends the loop. Attempts are numbered from 1. The waiting time between
  attempts (growing by \<open>factor\<close>) is not modelled.
\<close>

fun retry ::
  "(nat \<Rightarrow> 'a attempt) \<Rightarrow> nat \<Rightarrow> nat \<Rightarrow> http_error list \<Rightarrow> ('a promise \<times> nat) option
     \<Rightarrow> 'a retried" where
  "retry fn left num errors first =
     (let a = fn num;
          first' = (case bailed a of
                      None \<Rightarrow> first
                    | Some reason \<Rightarrow> settle first (Rejected reason) num)
      in case settled a of
           Inr val \<Rightarrow> finished first' (Resolved val) num
         | Inl err \<Rightarrow>
             (case left of
                0 \<Rightarrow> finished first' (Rejected (Exhausted (errors @ [err]))) num
              | Suc left' \<Rightarrow> retry fn left' (Suc num) (errors @ [err]) first'))"

declare retry.simps [simp del]

definition async_retry :: "(nat \<Rightarrow> 'a attempt) \<Rightarrow> retryOpts \<Rightarrow> 'a retried" where
  "async_retry fn opts = retry fn (retries opts) 1 [] None"

text \<open>
  \<^verbatim>\<open>_withRetries(apiCall)\<close>. \<open>apiCall n\<close> is how the \<open>n\<close>-th call of \<^verbatim>\<open>apiCall()\<close>
  settles. On an error the handler calls \<^verbatim>\<open>bail\<close> when
  \<^verbatim>\<open>!this._isRetriableStatusCode(statusCode)\<close>, and in every case goes on to rethrow
  the error.
\<close>

definition withRetries :: "(nat \<Rightarrow> http_error + 'a) \<Rightarrow> 'a retried" where
  "withRetries apiCall =
     (let retryOpts = \<lparr>retries = 5, factor = 2\<rparr>
      in async_retry
           (\<lambda>num. case apiCall num of
                     Inr val \<Rightarrow> \<lparr>bailed = None, settled = Inr val\<rparr>
                   | Inl err \<Rightarrow>
                       (let statusCode = status err
                        in \<lparr>bailed = (if \<not> truthy (isRetriableStatusCode statusCode)
                                      then Some (Unexpected statusCode) else None),
                            settled = Inl err\<rparr>))
           retryOpts)"

section \<open>Reddit app: subreddit search\<close>

















section \<open>Properties of the HubSpot source\<close>

subsection \<open>Decimal rendering\<close>

lemma string_of_nat_digit: "n < 10 \<Longrightarrow> string_of_nat n = [digit_char n]"
  by (simp add: string_of_nat.simps [of n])

lemma string_of_nat_more:
  "\<not> n < 10 \<Longrightarrow> string_of_nat n = string_of_nat (n div 10) @ [digit_char (n mod 10)]"
  by (simp add: string_of_nat.simps [of n])

lemmas string_of_number_eval =
  string_of_number_def string_of_nat_digit string_of_nat_more digit_char_def

lemma digit_char_inj: "a < 10 \<Longrightarrow> b < 10 \<Longrightarrow> digit_char a = digit_char b \<Longrightarrow> a = b"
proof -
  assume a: "a < 10" and b: "b < 10" and e: "digit_char a = digit_char b"
  have d: "distinct ''0123456789''" by simp
  have "length ''0123456789'' = 10" by simp
  with a b e d show "a = b"
    unfolding digit_char_def by (simp add: nth_eq_iff_index_eq)
qed

lemma digit_char_not_minus: "d < 10 \<Longrightarrow> digit_char d \<noteq> CHR ''-''"
proof -
  assume "d < 10"
  then have "digit_char d \<in> set ''0123456789''"
    unfolding digit_char_def by (intro nth_mem) simp
  then show ?thesis by auto
qed

lemma string_of_nat_nonempty: "string_of_nat n \<noteq> []"
  by (subst string_of_nat.simps) simp

lemma string_of_nat_inj: "string_of_nat a = string_of_nat b \<Longrightarrow> a = b"
proof (induction a arbitrary: b rule: string_of_nat.induct)
  case (1 n)
  show ?case
  proof (cases "n < 10")
    case True
    show ?thesis
    proof (cases "b < 10")
      case b: True
      from 1(2) True b have "digit_char n = digit_char b"
        by (simp add: string_of_nat_digit)
      with True b show ?thesis by (rule digit_char_inj)
    next
      case b: False
      from 1(2) True b have "[digit_char n] = string_of_nat (b div 10) @ [digit_char (b mod 10)]"
        by (simp add: string_of_nat_digit string_of_nat_more)
      then have "string_of_nat (b div 10) = []" by simp
      with string_of_nat_nonempty show ?thesis by blast
    qed
  next
    case False
    show ?thesis
    proof (cases "b < 10")
      case b: True
      from 1(2) False b have "string_of_nat (n div 10) @ [digit_char (n mod 10)] = [digit_char b]"
        by (simp add: string_of_nat_digit string_of_nat_more)
      then have "string_of_nat (n div 10) = []" by simp
      with string_of_nat_nonempty show ?thesis by blast
    next
      case b: False
      from 1(2) False b have "string_of_nat (n div 10) @ [digit_char (n mod 10)]
          = string_of_nat (b div 10) @ [digit_char (b mod 10)]"
        by (simp add: string_of_nat_more)
      then have e1: "string_of_nat (n div 10) = string_of_nat (b div 10)"
        and e2: "digit_char (n mod 10) = digit_char (b mod 10)" by simp_all
      from 1(1) [OF False e1] have q: "n div 10 = b div 10" .
      have "n mod 10 = b mod 10" using e2 by (intro digit_char_inj) simp_all
      with q show ?thesis by (metis div_mult_mod_eq)
    qed
  qed
qed

lemma string_of_nat_hd: "hd (string_of_nat n) \<noteq> CHR ''-''"
proof (induction n rule: string_of_nat.induct)
  case (1 n)
  show ?case
  proof (cases "n < 10")
    case True
    then show ?thesis by (simp add: string_of_nat_digit digit_char_not_minus)
  next
    case False
    with 1 string_of_nat_nonempty [of "n div 10"] show ?thesis
      by (simp add: string_of_nat_more)
  qed
qed

lemma string_of_number_inj: "string_of_number a = string_of_number b \<Longrightarrow> a = b"
proof -
  assume e: "string_of_number a = string_of_number b"
  have neg: "hd (string_of_number i) = CHR ''-'' \<longleftrightarrow> i < 0" for i
    using string_of_nat_hd [of "nat i"] by (simp add: string_of_number_def)
  from e neg [of a] neg [of b] have s: "a < 0 \<longleftrightarrow> b < 0" by simp
  show ?thesis
  proof (cases "a < 0")
    case True
    with s e have "string_of_nat (nat (- a)) = string_of_nat (nat (- b))"
      by (simp add: string_of_number_def)
    then have "nat (- a) = nat (- b)" by (rule string_of_nat_inj)
    with True s show ?thesis by simp
  next
    case False
    with s e have "string_of_nat (nat a) = string_of_nat (nat b)"
      by (simp add: string_of_number_def)
    then have "nat a = nat b" by (rule string_of_nat_inj)
    with False s show ?thesis by simp
  qed
qed

subsection \<open>Event metadata\<close>

text \<open>The timestamp of the metadata is the ordering key of the submission.\<close>

lemma generateMeta_ts:
  "ts (generateMeta toLocaleDateString toLocaleTimeString result) = submittedAt result"
  by (simp add: generateMeta_def Let_def)

subsection \<open>The relevance filter\<close>

text \<open>
  C1: the relevance filter admits exactly the submissions whose ordering key
  (\<open>submittedAt\<close>) is strictly greater than the cursor; a submission whose key equals
  the cursor is rejected by the filter.
\<close>

theorem isRelevant_strictly_newer:
  "(isRelevant result cursor \<longleftrightarrow> submittedAt result > cursor)
   \<and> \<not> isRelevant (result\<lparr>submittedAt := cursor\<rparr>) cursor"
  by (simp add: isRelevant_def)

theorem isRelevant_strictly_newer_witness:
  "isRelevant (item 110) 100 \<and> \<not> isRelevant (item 100) 100 \<and> \<not> isRelevant (item 90) 100"
  using isRelevant_strictly_newer [of "item 110" 100]
    isRelevant_strictly_newer [of "item 100" 100]
    isRelevant_strictly_newer [of "item 90" 100]
  by (simp add: item_def)

subsection \<open>Event identifiers\<close>

text \<open>
  A timestamp of thirteen digits, as every millisecond timestamp from September 2001 to
  November 2286 is, is rendered with thirteen characters.
\<close>

lemma string_of_nat_length:
  "n < 10 ^ Suc k \<Longrightarrow> k = 0 \<or> 10 ^ k \<le> n \<Longrightarrow> length (string_of_nat n) = Suc k"
proof (induction k arbitrary: n)
  case 0
  then show ?case by (simp add: string_of_nat_digit)
next
  case (Suc k)
  then have lo: "10 * 10 ^ k \<le> n" and hi: "n < 10 * 10 ^ Suc k" by simp_all
  have "(1::nat) \<le> 10 ^ k" by simp
  with lo have big: "\<not> n < 10" by linarith
  from hi have "n div 10 < 10 ^ Suc k" by (simp add: div_less_iff_less_mult mult.commute)
  moreover from lo have "10 ^ k \<le> n div 10"
    by (simp add: less_eq_div_iff_mult_less_eq mult.commute)
  ultimately have "length (string_of_nat (n div 10)) = Suc k"
    by (intro Suc.IH) simp_all
  with big show ?case by (simp add: string_of_nat_more)
qed

lemma string_of_number_length_ms:
  assumes "10 ^ 12 \<le> i" and "i < 10 ^ 13"
  shows "length (string_of_number i) = 13"
proof -
  from assms have "nat i < 10 ^ Suc 12" and "(10::nat) ^ 12 \<le> nat i" by simp_all
  then have "length (string_of_nat (nat i)) = Suc 12"
    by (intro string_of_nat_length) simp_all
  with assms show ?thesis by (simp add: string_of_number_def)
qed

text \<open>
  Without a separator between URL and timestamp, timestamps of different lengths can
  spell the same identifier; such timestamps do not occur together in practice.
\<close>

lemma id_collision_unequal_length:
  "id_meta (generateMeta d t \<lparr>pageUrl = ''https://example.com/form1'', submittedAt = 5, formValues = []\<rparr>)
     = id_meta (generateMeta d t \<lparr>pageUrl = ''https://example.com/form'', submittedAt = 15, formValues = []\<rparr>)"
  by (simp add: generateMeta_def Let_def string_of_number_eval)

text \<open>
  C8, as stated, fails: the identifier is built from the page URL and the timestamp
  alone, so two distinct submissions of the same page in the same millisecond get the
  same identifier.
\<close>

theorem generateMeta_id_collision:
  "\<lparr>pageUrl = ''https://example.com/contact'', submittedAt = 1620000000000,
      formValues = [(''email'', ''ann@example.com'')]\<rparr>
     \<noteq> \<lparr>pageUrl = ''https://example.com/contact'', submittedAt = 1620000000000,
          formValues = [(''email'', ''bob@example.com'')]\<rparr>
   \<and> id_meta (generateMeta (\<lambda>d. ''5/3/2021'') (\<lambda>d. ''12:00:00 AM'')
         \<lparr>pageUrl = ''https://example.com/contact'', submittedAt = 1620000000000,
            formValues = [(''email'', ''ann@example.com'')]\<rparr>)
     = id_meta (generateMeta (\<lambda>d. ''5/3/2021'') (\<lambda>d. ''12:00:00 AM'')
         \<lparr>pageUrl = ''https://example.com/contact'', submittedAt = 1620000000000,
            formValues = [(''email'', ''bob@example.com'')]\<rparr>)"
  by (simp add: generateMeta_def Let_def)

text \<open>
  C8, amended: the identifier stands for the pair of page URL and timestamp. For
  timestamps rendered with the same number of characters (all millisecond timestamps
  of thirteen digits are), two submissions get the same identifier exactly when they
  have the same page URL and the same timestamp: submissions that differ in page or in
  time get distinct identifiers, and distinct submissions of one page in one
  millisecond share theirs.
\<close>

theorem generateMeta_id_distinct:
  assumes "length (string_of_number (submittedAt r1)) = length (string_of_number (submittedAt r2))"
  shows "id_meta (generateMeta toLocaleDateString toLocaleTimeString r1)
           = id_meta (generateMeta toLocaleDateString toLocaleTimeString r2)
         \<longleftrightarrow> pageUrl r1 = pageUrl r2 \<and> submittedAt r1 = submittedAt r2"
proof
  assume "id_meta (generateMeta toLocaleDateString toLocaleTimeString r1)
            = id_meta (generateMeta toLocaleDateString toLocaleTimeString r2)"
  then have "pageUrl r1 @ string_of_number (submittedAt r1)
               = pageUrl r2 @ string_of_number (submittedAt r2)"
    by (simp add: generateMeta_def Let_def)
  with assms have "pageUrl r1 = pageUrl r2"
    and "string_of_number (submittedAt r1) = string_of_number (submittedAt r2)"
    by simp_all
  then show "pageUrl r1 = pageUrl r2 \<and> submittedAt r1 = submittedAt r2"
    by (simp add: string_of_number_inj)
next
  assume "pageUrl r1 = pageUrl r2 \<and> submittedAt r1 = submittedAt r2"
  then show "id_meta (generateMeta toLocaleDateString toLocaleTimeString r1)
               = id_meta (generateMeta toLocaleDateString toLocaleTimeString r2)"
    by (simp add: generateMeta_def Let_def)
qed

theorem generateMeta_id_distinct_witness:
  "length (string_of_number 1620000000000) = length (string_of_number 1620000000001)
   \<and> id_meta (generateMeta (\<lambda>d. ''5/3/2021'') (\<lambda>d. ''12:00:00 AM'') (item 1620000000000))
       \<noteq> id_meta (generateMeta (\<lambda>d. ''5/3/2021'') (\<lambda>d. ''12:00:00 AM'') (item 1620000000001))
   \<and> id_meta (generateMeta (\<lambda>d. ''5/3/2021'') (\<lambda>d. ''12:00:00 AM'')
         ((item 1620000000000)\<lparr>pageUrl := ''https://example.com/pricing''\<rparr>))
       \<noteq> id_meta (generateMeta (\<lambda>d. ''5/3/2021'') (\<lambda>d. ''12:00:00 AM'') (item 1620000000000))"
proof -
  have l: "length (string_of_number (submittedAt (item 1620000000000)))
      = length (string_of_number (submittedAt (item 1620000000001)))"
    by (simp add: item_def string_of_number_length_ms)
  have l': "length (string_of_number
        (submittedAt ((item 1620000000000)\<lparr>pageUrl := ''https://example.com/pricing''\<rparr>)))
      = length (string_of_number (submittedAt (item 1620000000000)))"
    by simp
  from generateMeta_id_distinct [OF l] generateMeta_id_distinct [OF l'] l show ?thesis
    by (simp add: item_def)
qed

section \<open>Properties of the incremental poller\<close>

subsection \<open>Oldest and newest keys\<close>

lemma newestKey_Some: "ks \<noteq> [] \<Longrightarrow> newestKey ks = Some (Max (set ks))"
  by (cases ks) (simp_all add: newestKey_def Max.set_eq_fold [symmetric])

lemma oldestKey_Some: "ks \<noteq> [] \<Longrightarrow> oldestKey ks = Some (Min (set ks))"
  by (cases ks) (simp_all add: oldestKey_def Min.set_eq_fold [symmetric])

lemma newestKey_Nil [simp]: "newestKey [] = None"
  by (simp add: newestKey_def)

lemma oldestKey_Nil [simp]: "oldestKey [] = None"
  by (simp add: oldestKey_def)

subsection \<open>Fetching pages\<close>

text \<open>
  The loop goes on to the next page exactly when the page is not empty, all of its items
  are newer than the cursor, and another page follows.
\<close>

lemma fetchPages_Cons:
  "fetchPages cursor (page # rest) =
     (if page \<noteq> [] \<and> rest \<noteq> [] \<and> (\<forall>r \<in> set page. submittedAt r > cursor)
      then page @ fetchPages cursor rest else page)"
proof (cases "page = []")
  case True
  then show ?thesis by simp
next
  case False
  then have k: "oldestKey (map submittedAt page) = Some (Min (submittedAt ` set page))"
    by (simp add: oldestKey_Some)
  have m: "(cursor < Min (submittedAt ` set page)) \<longleftrightarrow> (\<forall>r \<in> set page. submittedAt r > cursor)"
    using False by (subst Min_gr_iff) auto
  have e: "list_ex (\<lambda>r. isRelevant r cursor) page \<longleftrightarrow> (\<exists>r \<in> set page. submittedAt r > cursor)"
    by (simp add: list_ex_iff isRelevant_def)
  from False obtain r where "r \<in> set page" by (cases page) auto
  then have a: "(\<forall>r \<in> set page. submittedAt r > cursor) \<Longrightarrow> (\<exists>r \<in> set page. submittedAt r > cursor)"
    by blast
  show ?thesis
    using False a by (auto simp: k m e Let_def)
qed

lemma fetchPages_prefix: "\<exists>rest. concat pages = fetchPages cursor pages @ rest"
proof (induction pages)
  case Nil
  then show ?case by simp
next
  case (Cons page pages)
  then obtain rest where r: "concat pages = fetchPages cursor pages @ rest" by blast
  show ?case
    by (simp only: fetchPages_Cons concat.simps split: if_split) (use r in auto)
qed

text \<open>A later cursor never makes the loop fetch more.\<close>

lemma fetchPages_mono:
  "c \<le> c' \<Longrightarrow> set (fetchPages c' pages) \<subseteq> set (fetchPages c pages)"
proof (induction pages)
  case Nil
  then show ?case by simp
next
  case (Cons page pages)
  then have ih: "set (fetchPages c' pages) \<subseteq> set (fetchPages c pages)" by simp
  have down: "(\<forall>r \<in> set page. submittedAt r > c') \<Longrightarrow> (\<forall>r \<in> set page. submittedAt r > c)"
    using Cons.prems by fastforce
  show ?case
    using ih down by (simp only: fetchPages_Cons split: if_split) auto
qed

subsection \<open>Emissions and the cursor\<close>

lemma paginate_newer: "r \<in> set (paginate p src rt c) \<Longrightarrow> submittedAt r > c"
  by (simp add: paginate_def isRelevant_def)

lemma newCursor_upper: "r \<in> set emitted \<Longrightarrow> submittedAt r \<le> newCursor cursor emitted"
proof -
  assume r: "r \<in> set emitted"
  then have ne: "map submittedAt emitted \<noteq> []" by auto
  have "submittedAt r \<in> set (map submittedAt emitted)" using r by simp
  then have "submittedAt r \<le> Max (set (map submittedAt emitted))" by (intro Max_ge) simp_all
  then show ?thesis
    by (simp only: newCursor_def newestKey_Some [OF ne] option.case)
qed

lemma newCursor_unchanged: "newCursor cursor [] = cursor"
  by (simp add: newCursor_def)

lemma newCursor_Max:
  "emitted \<noteq> [] \<Longrightarrow> newCursor cursor emitted = Max (submittedAt ` set emitted)"
  by (simp add: newCursor_def newestKey_Some)

lemma newCursor_attained:
  "emitted \<noteq> [] \<Longrightarrow> newCursor cursor emitted \<in> submittedAt ` set emitted"
proof -
  assume ne: "emitted \<noteq> []"
  then have "Max (submittedAt ` set emitted) \<in> submittedAt ` set emitted"
    by (intro Max_in) simp_all
  with ne show ?thesis by (simp add: newCursor_Max)
qed

lemma poll_emitted_newer:
  "e \<in> set (fst (poll forms src c)) \<Longrightarrow> r \<in> set e \<Longrightarrow> submittedAt r > c"
  by (auto simp: poll_def processResults_def Let_def dest: paginate_newer)

lemma poll_cursor_ge: "snd (poll forms src c) \<ge> c"
proof (cases "concat (fst (poll forms src c)) = []")
  case True
  then show ?thesis by (simp add: poll_def Let_def newCursor_unchanged del: concat_eq_Nil_conv)
next
  case False
  then have "snd (poll forms src c) \<in> submittedAt ` set (concat (fst (poll forms src c)))"
    by (simp add: poll_def Let_def newCursor_attained del: set_concat concat_eq_Nil_conv)
  then obtain r e where "e \<in> set (fst (poll forms src c))" "r \<in> set e"
    "snd (poll forms src c) = submittedAt r" by auto
  then show ?thesis using poll_emitted_newer by fastforce
qed


lemma newestFirst_prefix: "newestFirst (xs @ ys) \<Longrightarrow> newestFirst xs"
  by (simp add: newestFirst_def sorted_wrt_append)

lemma paginate_sorted:
  assumes "newestFirst (concat (resourceFn params))"
  shows "sorted (map submittedAt (paginate params resourceFn resultType after))"
proof -
  obtain rest where "concat (resourceFn params) = fetchPages after (resourceFn params) @ rest"
    using fetchPages_prefix by blast
  with assms have "newestFirst (fetchPages after (resourceFn params))"
    by (metis newestFirst_prefix)
  then have "sorted_wrt (\<lambda>a b. submittedAt a \<ge> submittedAt b)
      (filter (\<lambda>r. isRelevant r after) (fetchPages after (resourceFn params)))"
    unfolding newestFirst_def by (rule sorted_wrt_filter)
  then show ?thesis
    by (simp add: paginate_def sorted_wrt_rev sorted_wrt_map rev_map)
qed

lemmas poll_eval = poll_def processResults_def paginate_def observed_def oldestKey_def
  newestKey_def newCursor_def isRelevant_def getParams_def item_def newestFirst_def Let_def
  cycleEmissions_def backfill_def

subsection \<open>Order of emissions\<close>

lemma backfill_sorted:
  assumes "newestFirst (concat (resourceFn params))"
  shows "sorted (map submittedAt (backfill params resourceFn resultType))"
proof (cases "resourceFn params")
  case Nil
  then show ?thesis by (simp add: backfill_def)
next
  case (Cons page rest)
  with assms have "newestFirst page" by (simp add: newestFirst_prefix)
  with Cons show ?thesis
    by (simp add: backfill_def newestFirst_def sorted_wrt_rev sorted_wrt_map rev_map)
qed

text \<open>With a cursor and no failing fetch, the cycle emits what \<open>poll\<close> emits.\<close>

lemma cycleEmissions_poll:
  "cycleEmissions forms (\<lambda>p. Some (getFormSubmissions p)) (Some cursor)
     = fst (poll forms getFormSubmissions cursor)"
  by (simp add: cycleEmissions_def poll_def processResults_def paginate_def Let_def)

text \<open>
  C5, as stated, fails for a cycle over several forms: each form's call hands over its
  own emissions, and nothing orders them across forms. With two forms whose newest-first
  sources hold the keys 50 and 40, the cycle delivers 50 before 40 when the calls
  complete in the order in which \<open>processResults\<close> started them.
\<close>

theorem emissions_across_forms_unordered:
  "newestFirst (concat [[item 50]]) \<and> newestFirst (concat [[item 40]])
   \<and> concat (cycleEmissions [''a'', ''b'']
        (\<lambda>p. Some (if formId p = Some ''a'' then [[item 50]] else [[item 40]])) (Some 0))
       = [item 50, item 40]
   \<and> \<not> sorted (map submittedAt (concat (cycleEmissions [''a'', ''b'']
        (\<lambda>p. Some (if formId p = Some ''a'' then [[item 50]] else [[item 40]])) (Some 0))))"
  by (simp add: poll_eval)

text \<open>
  C5, amended: in every poll cycle, first run or not, whatever fetches fail, the
  emissions of each form whose source lists its submissions newest first are handed
  over in non-decreasing order of their ordering key: they are the fetched submissions
  newer than the cursor (on a first run, the submissions of the first page), reversed.
  For a cycle over a single form this is the whole sequence of emissions of the cycle;
  across several forms no order holds.
\<close>

theorem emissions_chronological:
  assumes "\<forall>form \<in> set forms. \<forall>pages.
     getFormSubmissions (getParams\<lparr>formId := Some form\<rparr>) = Some pages
       \<longrightarrow> newestFirst (concat pages)"
  shows "cycleEmissions forms getFormSubmissions cursor =
           map (\<lambda>form. case getFormSubmissions (getParams\<lparr>formId := Some form\<rparr>) of
                         None \<Rightarrow> []
                       | Some pages \<Rightarrow>
                           (case cursor of
                              None \<Rightarrow> rev (case pages of [] \<Rightarrow> [] | page # rest \<Rightarrow> page)
                            | Some c \<Rightarrow> rev (filter (\<lambda>r. submittedAt r > c) (fetchPages c pages))))
             forms
         \<and> (\<forall>emitted \<in> set (cycleEmissions forms getFormSubmissions cursor).
            sorted (map submittedAt emitted))
         \<and> (length forms = 1 \<longrightarrow>
              sorted (map submittedAt (concat (cycleEmissions forms getFormSubmissions cursor))))"
proof -
  have reversed: "cycleEmissions forms getFormSubmissions cursor =
      map (\<lambda>form. case getFormSubmissions (getParams\<lparr>formId := Some form\<rparr>) of
                    None \<Rightarrow> []
                  | Some pages \<Rightarrow>
                      (case cursor of
                         None \<Rightarrow> rev (case pages of [] \<Rightarrow> [] | page # rest \<Rightarrow> page)
                       | Some c \<Rightarrow> rev (filter (\<lambda>r. submittedAt r > c) (fetchPages c pages))))
        forms"
    by (auto simp: cycleEmissions_def processResults_def paginate_def backfill_def
        isRelevant_def split: option.splits)
  have each: "sorted (map submittedAt emitted)"
    if "emitted \<in> set (cycleEmissions forms getFormSubmissions cursor)" for emitted
  proof -
    from that obtain form where f: "form \<in> set forms"
      and e: "emitted = (case getFormSubmissions (getParams\<lparr>formId := Some form\<rparr>) of
            None \<Rightarrow> []
          | Some pages \<Rightarrow>
              (case cursor of
                 None \<Rightarrow> backfill (getParams\<lparr>formId := Some form\<rparr>) (\<lambda>p. pages) ''results''
               | Some c \<Rightarrow> paginate (getParams\<lparr>formId := Some form\<rparr>) (\<lambda>p. pages) ''results'' c))"
      by (auto simp: cycleEmissions_def processResults_def)
    show ?thesis
    proof (cases "getFormSubmissions (getParams\<lparr>formId := Some form\<rparr>)")
      case None
      with e show ?thesis by simp
    next
      case fetched: (Some pages)
      with assms f have n: "newestFirst (concat pages)" by blast
      show ?thesis
      proof (cases cursor)
        case None
        with e fetched show ?thesis
          using backfill_sorted [of "\<lambda>p. pages", OF n] by simp
      next
        case (Some c)
        with e fetched show ?thesis
          using paginate_sorted [of "\<lambda>p. pages", OF n] by simp
      qed
    qed
  qed
  have "sorted (map submittedAt (concat (cycleEmissions forms getFormSubmissions cursor)))"
    if "length forms = 1"
  proof -
    from that obtain form where "forms = [form]" by (cases forms) auto
    then have "cycleEmissions forms getFormSubmissions cursor
        = [concat (cycleEmissions forms getFormSubmissions cursor)]"
      by (simp add: cycleEmissions_def processResults_def)
    then have "concat (cycleEmissions forms getFormSubmissions cursor)
        \<in> set (cycleEmissions forms getFormSubmissions cursor)"
      by (metis list.set_intros(1))
    then show ?thesis by (rule each)
  qed
  with reversed each show ?thesis by blast
qed

theorem emissions_chronological_witness:
  "cycleEmissions [''a'', ''b'', ''c'']
      (\<lambda>p. if formId p = Some ''a''
            then Some [[item 130, item 120], [item 110, item 100, item 90], [item 80]]
            else if formId p = Some ''b'' then None else Some [[item 125, item 95]])
      (Some 100)
     = [[item 110, item 120, item 130], [], [item 125]]
   \<and> cycleEmissions [''a''] (\<lambda>p. Some [[item 130, item 120], [item 110]]) None
     = [[item 120, item 130]]
   \<and> sorted (map submittedAt (concat
        (cycleEmissions [''a''] (\<lambda>p. Some [[item 130, item 120], [item 110]]) None)))"
proof -
  have h: "\<forall>form \<in> set [''a''].
      \<forall>pages. (\<lambda>p. Some [[item 130, item 120], [item 110]]) (getParams\<lparr>formId := Some form\<rparr>)
          = Some pages \<longrightarrow> newestFirst (concat pages)"
    by (auto simp: newestFirst_def item_def)
  have h': "\<forall>form \<in> set [''a'', ''b'', ''c''].
      \<forall>pages. (\<lambda>p. if formId p = Some ''a''
            then Some [[item 130, item 120], [item 110, item 100, item 90], [item 80]]
            else if formId p = Some ''b'' then None else Some [[item 125, item 95]])
          (getParams\<lparr>formId := Some form\<rparr>) = Some pages \<longrightarrow> newestFirst (concat pages)"
    by (auto simp: newestFirst_def item_def)
  from emissions_chronological [OF h, of None, THEN conjunct2, THEN conjunct2]
  have s: "sorted (map submittedAt (concat
        (cycleEmissions [''a''] (\<lambda>p. Some [[item 130, item 120], [item 110]]) None)))"
    by simp
  from emissions_chronological [OF h', of "Some 100", THEN conjunct1]
  have "cycleEmissions [''a'', ''b'', ''c'']
      (\<lambda>p. if formId p = Some ''a''
            then Some [[item 130, item 120], [item 110, item 100, item 90], [item 80]]
            else if formId p = Some ''b'' then None else Some [[item 125, item 95]])
      (Some 100)
     = [[item 110, item 120, item 130], [], [item 125]]"
    by (simp add: poll_eval)
  moreover have "cycleEmissions [''a''] (\<lambda>p. Some [[item 130, item 120], [item 110]]) None
     = [[item 120, item 130]]"
    by (simp add: poll_eval)
  ultimately show ?thesis using s by simp
qed

subsection \<open>Idempotence\<close>

text \<open>
  C6: a second poll cycle over the same upstream items, started from the cursor the
  first cycle left, emits nothing and leaves the cursor as it is.
\<close>

theorem poll_idempotent:
  "(let (emitted1, cursor1) = poll forms getFormSubmissions cursor;
        (emitted2, cursor2) = poll forms getFormSubmissions cursor1
    in concat emitted2 = [] \<and> cursor2 = cursor1)"
proof -
  define c1 where "c1 = snd (poll forms getFormSubmissions cursor)"
  have ge: "cursor \<le> c1" unfolding c1_def by (rule poll_cursor_ge)
  have "concat (fst (poll forms getFormSubmissions c1)) = []"
  proof (rule ccontr)
    assume "concat (fst (poll forms getFormSubmissions c1)) \<noteq> []"
    then obtain r where "r \<in> set (concat (fst (poll forms getFormSubmissions c1)))"
      by (meson last_in_set)
    then obtain form where f: "form \<in> set forms"
      and r: "r \<in> set (paginate (getParams\<lparr>formId := Some form\<rparr>) getFormSubmissions ''results'' c1)"
      by (auto simp: poll_def processResults_def Let_def)
    from r have new: "submittedAt r > c1" by (rule paginate_newer)
    from r have "r \<in> set (fetchPages c1 (getFormSubmissions (getParams\<lparr>formId := Some form\<rparr>)))"
      by (simp add: paginate_def)
    with fetchPages_mono [OF ge]
    have "r \<in> set (fetchPages cursor (getFormSubmissions (getParams\<lparr>formId := Some form\<rparr>)))"
      by blast
    with new ge
    have "r \<in> set (paginate (getParams\<lparr>formId := Some form\<rparr>) getFormSubmissions ''results'' cursor)"
      by (simp add: paginate_def isRelevant_def)
    with f have "r \<in> set (concat (fst (poll forms getFormSubmissions cursor)))"
      by (auto simp: poll_def processResults_def Let_def)
    then have "submittedAt r \<le> c1"
      unfolding c1_def by (simp add: poll_def Let_def newCursor_upper del: set_concat)
    with new show False by simp
  qed
  then have "concat (fst (poll forms getFormSubmissions c1)) = [] \<and>
      snd (poll forms getFormSubmissions c1) = c1"
    by (simp add: poll_def Let_def newCursor_unchanged del: concat_eq_Nil_conv)
  then show ?thesis
    by (simp add: c1_def split_beta del: concat_eq_Nil_conv)
qed

theorem poll_idempotent_witness:
  "snd (poll [''a'', ''b'']
          (\<lambda>p. if formId p = Some ''a'' then [[item 50, item 40]] else [[item 60], [item 10]]) 45)
     = 60
   \<and> concat (fst (poll [''a'', ''b'']
          (\<lambda>p. if formId p = Some ''a'' then [[item 50, item 40]] else [[item 60], [item 10]]) 60))
     = []
   \<and> snd (poll [''a'', ''b'']
          (\<lambda>p. if formId p = Some ''a'' then [[item 50, item 40]] else [[item 60], [item 10]]) 60)
     = 60"
proof -
  have first: "snd (poll [''a'', ''b'']
          (\<lambda>p. if formId p = Some ''a'' then [[item 50, item 40]] else [[item 60], [item 10]]) 45)
     = 60"
    by (simp add: poll_eval)
  from poll_idempotent [of "[''a'', ''b'']"
      "\<lambda>p. if formId p = Some ''a'' then [[item 50, item 40]] else [[item 60], [item 10]]" 45]
  show ?thesis
    unfolding split_beta Let_def first using first by simp
qed

subsection \<open>The new cursor\<close>




section \<open>Properties of the Reddit app\<close>

subsection \<open>Query strings\<close>

lemmas getQuery_eval = getQuery_def keys_def member_of_def substr0_def spec_queryString_def
  spec_entries_def Let_def string_of_number_eval

lemma fold_entries:
  "distinct (map fst ps) \<Longrightarrow> set ps \<subseteq> set params \<Longrightarrow> distinct (map fst params) \<Longrightarrow>
   fold (\<lambda>k query. if \<not> isNil (member_of params k)
                     then query @ k @ ''='' @ template (member_of params k) @ ''&'' else query)
     (map fst ps) acc
   = acc @ concat (map (\<lambda>e. e @ ''&'') (spec_entries ps))"
proof (induction ps arbitrary: acc)
  case Nil
  then show ?case by (simp add: spec_entries_def)
next
  case (Cons p ps)
  obtain k v where p: "p = (k, v)" by (cases p)
  with Cons.prems have "map_of params k = Some v" by simp
  then have v: "member_of params k = v" by (simp add: member_of_def)
  from Cons have ih: "fold (\<lambda>k query. if \<not> isNil (member_of params k)
                     then query @ k @ ''='' @ template (member_of params k) @ ''&'' else query)
     (map fst ps) acc'
   = acc' @ concat (map (\<lambda>e. e @ ''&'') (spec_entries ps))" for acc'
    by simp
  show ?case
    by (simp add: p v ih) (simp add: spec_entries_def)
qed

lemma spec_joined_amp:
  "es \<noteq> [] \<Longrightarrow> concat (map (\<lambda>e. e @ ''&'') es) = spec_joined es @ ''&''"
  by (induction es rule: spec_joined.induct) simp_all

lemma spec_joined_nonempty: "es \<noteq> [] \<Longrightarrow> last es \<noteq> [] \<Longrightarrow> spec_joined es \<noteq> []"
  by (induction es rule: spec_joined.induct) simp_all

lemma spec_joined_last:
  "es \<noteq> [] \<Longrightarrow> last es \<noteq> [] \<Longrightarrow> last (spec_joined es) = last (last es)"
proof (induction es rule: spec_joined.induct)
  case (3 e e' es)
  then have "spec_joined (e' # es) \<noteq> []" by (intro spec_joined_nonempty) simp_all
  with 3 show ?case by simp
qed simp_all

lemma spec_entries_nonempty: "e \<in> set (spec_entries params) \<Longrightarrow> e \<noteq> []"
  by (auto simp: spec_entries_def)

text \<open>
  C9, as stated, fails: values are copied as they are, so a value that ends with \<open>?\<close>
  or \<open>&\<close> leaves that character at the end of the query string.
\<close>

theorem getQuery_trailing_character:
  "getQuery (Some [(''q'', JString ''why?'')]) = ''?q=why?''
   \<and> last (getQuery (Some [(''q'', JString ''why?'')])) = CHR ''?''"
  by (simp add: getQuery_eval)

text \<open>
  C9, amended: for an absent object the result is empty. For an object, the result is
  empty when no key has a non-nil value, and otherwise is \<open>?\<close> followed by the entries
  \<open>k=v\<close> of exactly the keys whose value is neither null nor undefined (false and 0
  included), in key order, separated by \<open>&\<close>. No separator follows the last entry:
  a non-empty result ends with the last character of its last entry.
\<close>

theorem getQuery_entries:
  assumes "distinct (keys params)"
  shows "getQuery None = []
    \<and> getQuery (Some params) = spec_queryString params
    \<and> (if spec_entries params = [] then getQuery (Some params) = []
       else last (getQuery (Some params)) = last (last (spec_entries params)))"
proof -
  from assms have d: "distinct (map fst params)" by (simp add: keys_def)
  have f: "fold (\<lambda>k query. if \<not> isNil (member_of params k)
                   then query @ k @ ''='' @ template (member_of params k) @ ''&'' else query)
      (keys params) ''?'' = ''?'' @ concat (map (\<lambda>e. e @ ''&'') (spec_entries params))"
    unfolding keys_def using fold_entries [OF d _ d, of "''?''"] by simp
  have q: "getQuery (Some params) = spec_queryString params"
  proof (cases "spec_entries params = []")
    case True
    then show ?thesis by (simp add: getQuery_def f spec_queryString_def substr0_def)
  next
    case False
    have n: "nat (1 + int m) = Suc m" for m by simp
    from False show ?thesis
      by (simp add: getQuery_def f spec_queryString_def substr0_def spec_joined_amp n)
  qed
  have l: "last (spec_queryString params) = last (last (spec_entries params))"
    if ne: "spec_entries params \<noteq> []"
  proof -
    from ne have "last (spec_entries params) \<in> set (spec_entries params)" by simp
    then have le: "last (spec_entries params) \<noteq> []" by (rule spec_entries_nonempty)
    with ne show ?thesis
      by (simp add: spec_queryString_def spec_joined_last spec_joined_nonempty)
  qed
  have "getQuery None = []" by (simp add: getQuery_def)
  with q l show ?thesis by (simp add: spec_queryString_def)
qed

theorem getQuery_entries_witness:
  "distinct (keys [(''after'', JNull), (''q'', JString ''cats''), (''limit'', JNumber 100),
                   (''show_users'', JBoolean False), (''count'', JNumber 0),
                   (''before'', JUndefined)])
   \<and> getQuery (Some [(''after'', JNull), (''q'', JString ''cats''), (''limit'', JNumber 100),
                     (''show_users'', JBoolean False), (''count'', JNumber 0),
                     (''before'', JUndefined)])
       = ''?q=cats&limit=100&show_users=false&count=0''
   \<and> getQuery (Some [(''after'', JNull)]) = []"
proof -
  have d: "distinct (keys [(''after'', JNull), (''q'', JString ''cats''), (''limit'', JNumber 100),
                   (''show_users'', JBoolean False), (''count'', JNumber 0),
                   (''before'', JUndefined)])"
    by (simp add: keys_def)
  have d': "distinct (keys [(''after'', JNull)])" by (simp add: keys_def)
  from getQuery_entries [OF d] getQuery_entries [OF d'] d show ?thesis
    by (simp add: spec_queryString_def spec_entries_def string_of_number_eval)
qed

subsection \<open>Retries\<close>

lemmas withRetries_eval = withRetries_def async_retry_def isRetriableStatusCode_def
  array_includes_def expression_statement_def settle_def finished_def retry.simps Let_def

text \<open>The status test never holds, whatever the status code.\<close>

lemma isRetriableStatusCode_falsy: "\<not> truthy (isRetriableStatusCode statusCode)"
  by (simp add: isRetriableStatusCode_def expression_statement_def)

text \<open>
  Hence the first error of any kind settles the call: the wrapper bails, and the promise
  is rejected after one call, whatever the later attempts bring.
\<close>

lemma retry_settled:
  "outcome (retry fn left num errors (Some (p, c))) = p
   \<and> calls (retry fn left num errors (Some (p, c))) = c"
proof (induction left arbitrary: num errors)
  case 0
  show ?case
    by (cases "settled (fn num)"; cases "bailed (fn num)")
      (simp_all add: retry.simps [of fn 0] settle_def finished_def Let_def)
next
  case (Suc left)
  show ?case
    by (cases "settled (fn num)"; cases "bailed (fn num)")
      (simp_all add: retry.simps [of fn "Suc left"] settle_def finished_def Let_def Suc)
qed

lemma retry_first_bail:
  assumes "fn num = \<lparr>bailed = Some reason, settled = Inl err\<rparr>"
  shows "outcome (retry fn left num errors None) = Rejected reason
    \<and> calls (retry fn left num errors None) = num"
proof (cases left)
  case 0
  then show ?thesis
    by (subst retry.simps, subst (2) retry.simps) (simp add: assms settle_def finished_def)
next
  case (Suc l)
  have "retry fn (Suc l) num errors None
      = retry fn l (Suc num) (errors @ [err]) (Some (Rejected reason, num))"
    by (subst retry.simps) (simp add: assms settle_def)
  with Suc show ?thesis by (simp add: retry_settled)
qed

lemma withRetries_first_error:
  assumes "apiCall 1 = Inl err"
  shows "outcome (withRetries apiCall) = Rejected (Unexpected (status err))
    \<and> calls (withRetries apiCall) = 1"
proof -
  define fn where "fn = (\<lambda>num. case apiCall num of
      Inr val \<Rightarrow> \<lparr>bailed = None, settled = Inr val\<rparr>
    | Inl err \<Rightarrow> \<lparr>bailed = (if \<not> truthy (isRetriableStatusCode (status err))
                              then Some (Unexpected (status err)) else None),
                   settled = Inl err\<rparr>)"
  have w: "withRetries apiCall = retry fn 5 1 [] None"
    unfolding withRetries_def async_retry_def fn_def Let_def by simp
  have a: "fn 1 = \<lparr>bailed = Some (Unexpected (status err)), settled = Inl err\<rparr>"
    using assms by (simp add: fn_def isRetriableStatusCode_falsy)
  from retry_first_bail [where fn = fn and num = 1, OF a] show ?thesis unfolding w .
qed

lemma withRetries_success:
  "apiCall 1 = Inr v \<Longrightarrow>
   withRetries apiCall = \<lparr>outcome = Resolved v, calls = 1, invocations = 1\<rparr>"
  by (simp add: withRetries_eval)

text \<open>
  A function that throws without bailing is run once and then once more per retry, and
  only then is the promise rejected: this is what the wrapper would do for a transient
  error if the status test held.
\<close>

lemma retry_exhausts:
  assumes fn: "\<And>n. fn n = \<lparr>bailed = None, settled = Inl (err n)\<rparr>"
  shows "retry fn left num errors None =
     \<lparr>outcome = Rejected (Exhausted (errors @ map err [num..<num + left + 1])),
      calls = num + left, invocations = num + left\<rparr>"
proof (induction left arbitrary: num errors)
  case 0
  show ?case by (subst retry.simps) (simp add: fn finished_def)
next
  case (Suc left)
  have step: "retry fn (Suc left) num errors None
      = retry fn left (Suc num) (errors @ [err num]) None"
    by (subst retry.simps) (simp add: fn)
  have n: "Suc num + left = num + Suc left" by simp
  have up: "[num..<num + Suc left + 1] = num # [Suc num..<num + Suc left + 1]"
    by (rule upt_conv_Cons) simp
  have cat: "(errors @ [err num]) @ map err [Suc num..<num + Suc left + 1]
      = errors @ map err [num..<num + Suc left + 1]"
    by (subst up) simp
  show ?case
    by (simp only: step Suc.IH n cat)
qed

text \<open>
  C2, on the code: a request that fails once with status 429 and succeeds on the second
  attempt is reported as failed. \<open>isRetriableStatusCode\<close> yields \<open>undefined\<close> for 429
  although the code lists it, the wrapper bails, and the promise is rejected after a
  single call; the second call is still made and its result is dropped. In the other
  direction, a request that keeps failing with status 404 is sent six times.
\<close>

theorem withRetries_transient_not_retried:
  "isRetriableStatusCode (Some 429) = JUndefined
   \<and> array_includes [408, 429, 500] (Some 429)
   \<and> withRetries (\<lambda>num. if num = 1
                          then Inl \<lparr>status = Some 429, message = ''Too Many Requests''\<rparr>
                          else Inr ''listing'')
       = \<lparr>outcome = Rejected (Unexpected (Some 429)), calls = 1, invocations = 2\<rparr>
   \<and> withRetries (\<lambda>num. Inl \<lparr>status = Some 404, message = ''Not Found''\<rparr>
                          :: http_error + string)
       = \<lparr>outcome = Rejected (Unexpected (Some 404)), calls = 1, invocations = 6\<rparr>"
  by (simp add: withRetries_eval)

text \<open>
  C3, on the code: a request that keeps failing with status 500 is sent six times, once
  and five retries, but the failure is surfaced before any of the retries: the promise
  is rejected by the bail of the first attempt, after one call, and not once the
  retries are used up.
\<close>

theorem withRetries_persistent_rejected_early:
  "withRetries (\<lambda>num. Inl \<lparr>status = Some 500, message = ''Internal Server Error''\<rparr>
                       :: http_error + string)
     = \<lparr>outcome = Rejected (Unexpected (Some 500)), calls = 1, invocations = 6\<rparr>"
  by (simp add: withRetries_eval)

subsection \<open>Subreddit search\<close>






end
